theory Spec2Isabelle
  imports Main
begin

section \<open>The Georisques connector (src/connector.py)\<close>

text \<open>
  The connector crawls from a seed URL: it pops a URL from a stack, renders the page in a
  browser, turns the page into a Document, pushes the PDF links of the page, and yields the
  Documents in batches. The browser, the HTML library and \<open>urljoin\<close> are collaborators of the
  connector; they are parameters of the model (a record \<open>world\<close>), and every call of the
  \<open>try\<close> block may raise.
\<close>

type_synonym url = string
type_synonym addr = nat

subsection \<open>Errors and outcomes of calls\<close>

datatype error = ValueError string | RuntimeError string

text \<open>A call into a collaborator either raises (with the text of the exception, Python's
  \<open>str(e)\<close>) or returns.\<close>

datatype 'a outcome = Raises string | Returns 'a

subsection \<open>Documents\<close>

datatype document_source = GEORISQUES

record doc_section =
  sec_link :: string
  sec_text :: string

record document =
  doc_id :: string
  sections :: "doc_section list"
  source :: document_source
  semantic_identifier :: string
  metadata :: "(string \<times> string) list"

text \<open>The result of \<open>web_html_cleanup\<close>: a title (possibly \<open>None\<close>) and the cleaned text.\<close>

record parsed_html =
  title :: "string option"
  cleaned_text :: string

subsection \<open>The connector object and the store\<close>

text \<open>
  Python lists and the connector are objects reached through references. The store holds
  the list objects and the connector objects; \<open>next_free\<close> is the next unused address.
\<close>

record connector =
  batch_size :: int
  loaded_count :: int
  base_url :: url
  to_visit_list :: addr

record heap =
  lists :: "addr \<Rightarrow> url list"
  connectors :: "addr \<Rightarrow> connector"
  next_free :: addr

definition BASE_URL :: url where
  "BASE_URL = ''https://www.georisques.gouv.fr''"

definition MAX_PAGES_TO_VISIT :: int where
  "MAX_PAGES_TO_VISIT = 1000"

text \<open>\<open>xs.copy()\<close>: a new list object with the same elements.\<close>

definition list_copy :: "addr \<Rightarrow> heap \<Rightarrow> addr \<times> heap" where
  "list_copy a h =
     (next_free h,
      h\<lparr>lists := (lists h)(next_free h := lists h a), next_free := Suc (next_free h)\<rparr>)"

text \<open>
  \<open>GeorisquesConnector.__init__\<close>: the four attributes are assigned, then the connector type
  is checked. The new object and its list \<open>[base_url]\<close> take the next two addresses.
\<close>

definition init_connector :: "url \<Rightarrow> string \<Rightarrow> int \<Rightarrow> heap \<Rightarrow> error + (addr \<times> heap)" where
  "init_connector base_url_arg georisques_connector_type batch_size_arg h =
     (let self = next_free h;
          l = Suc (next_free h);
          h' = h\<lparr>lists := (lists h)(l := [base_url_arg]),
                 connectors := (connectors h)(self :=
                    \<lparr>batch_size = batch_size_arg, loaded_count = 0,
                     base_url = base_url_arg, to_visit_list = l\<rparr>),
                 next_free := Suc (Suc (next_free h))\<rparr>
      in if georisques_connector_type \<noteq> ''single''
         then Inl (ValueError (''Only '' @ [CHR 0x27] @ ''single'' @ [CHR 0x27] @
                     '' type is supported for this connector.''))
         else Inr (self, h'))"

subsection \<open>The collaborators\<close>

text \<open>
  The browser calls take the value of \<open>loaded_count\<close> of the iteration that makes them, so
  that the answer of the browser may change during a run. \<open>find_all_a_href\<close> is
  \<open>soup.find_all("a", href=True)\<close> followed by \<open>link.get("href")\<close>: the href strings of the
  anchors of the soup, in document order. \<open>web_html_cleanup\<close> returns the soup as it has left
  it together with its result.
\<close>

record 'soup world =
  new_page :: "int \<Rightarrow> unit outcome"
  goto :: "int \<Rightarrow> url \<Rightarrow> unit outcome"
  content :: "int \<Rightarrow> url \<Rightarrow> string outcome"
  BeautifulSoup :: "string \<Rightarrow> 'soup outcome"
  web_html_cleanup :: "'soup \<Rightarrow> (parsed_html \<times> 'soup) outcome"
  find_all_a_href :: "'soup \<Rightarrow> string list"
  urljoin :: "url \<Rightarrow> string \<Rightarrow> url outcome"
  page_close :: "int \<Rightarrow> url \<Rightarrow> unit outcome"

text \<open>
  What a run does to the outside: \<open>New_page u\<close> is a page opened in the iteration of \<open>u\<close>
  (\<open>context.new_page()\<close> returned), \<open>Goto u\<close> a call \<open>page.goto(u)\<close>, \<open>Page_close u\<close> the page
  of that iteration closed (\<open>page.close()\<close> returned).
\<close>

datatype event =
    Start_playwright
  | New_page url
  | Goto url
  | Page_close url
  | Playwright_stop
  | Logger_warning string
  | Logger_error string

subsection \<open>The state of a run\<close>

text \<open>
  The local variables of \<open>load_from_state\<close> (the local \<open>loaded_count\<close> is \<open>loaded_count'\<close>;
  \<open>restart_playwright\<close> is assigned once and never read), the store, the batches yielded so
  far, the events so far, and the URLs popped so far. \<open>goto_log\<close> records, for every call
  \<open>page.goto(u)\<close>, the URL \<open>u\<close> and the value of \<open>visited_links\<close> at the moment of the call.
\<close>

record run =
  heap :: heap
  self :: addr
  to_visit :: addr
  visited_links :: "url set"
  loaded_count' :: int
  doc_batch :: "document list"
  at_least_one_doc :: bool
  last_error :: "string option"
  yielded :: "document list list"
  events :: "event list"
  popped :: "url list"
  goto_log :: "(url \<times> url set) list"

text \<open>
  The list object \<open>to_visit\<close> of a state, \<open>to_visit.append(x)\<close> and \<open>to_visit.pop()\<close>.
  Python's \<open>pop\<close> raises IndexError on an empty list, which is \<open>None\<close> here; otherwise it
  removes the last element and returns it. The popped URL is also recorded in \<open>popped\<close>.
\<close>

definition frontier :: "run \<Rightarrow> url list" where
  "frontier s = lists (heap s) (to_visit s)"

definition list_append :: "url \<Rightarrow> run \<Rightarrow> run" where
  "list_append x s =
     s\<lparr>heap := (heap s)\<lparr>lists := (lists (heap s))(to_visit s := frontier s @ [x])\<rparr>\<rparr>"

definition list_pop :: "run \<Rightarrow> (url \<times> run) option" where
  "list_pop s =
     (if frontier s = [] then None
      else Some (last (frontier s),
                 s\<lparr>heap := (heap s)\<lparr>lists := (lists (heap s))(to_visit s := butlast (frontier s))\<rparr>,
                   popped := popped s @ [last (frontier s)]\<rparr>))"

subsection \<open>One iteration\<close>

text \<open>\<open>s.endswith(suffix)\<close>.\<close>

definition endswith :: "string \<Rightarrow> string \<Rightarrow> bool" where
  "endswith s suffix =
     (length suffix \<le> length s \<and> drop (length s - length suffix) s = suffix)"

text \<open>The loop over the anchors (lines 102 to 107). A raise of \<open>urljoin\<close> leaves the loop
  with the links pushed so far.\<close>

fun discover :: "'soup world \<Rightarrow> url \<Rightarrow> string list \<Rightarrow> run \<Rightarrow> string option \<times> run" where
  "discover W current_url [] s = (None, s)"
| "discover W current_url (href # hrefs) s =
     (if href \<noteq> [] \<and> endswith href ''.pdf'' then
        (case urljoin W current_url href of
           Raises e \<Rightarrow> (Some e, s)
         | Returns pdf_url \<Rightarrow>
             discover W current_url hrefs
               (if pdf_url \<notin> visited_links s then list_append pdf_url s else s))
      else discover W current_url hrefs s)"

definition make_document :: "url \<Rightarrow> parsed_html \<Rightarrow> document" where
  "make_document current_url parsed =
     \<lparr>doc_id = current_url,
      sections = [\<lparr>sec_link = current_url, sec_text = cleaned_text parsed\<rparr>],
      source = GEORISQUES,
      semantic_identifier =
        (case title parsed of None \<Rightarrow> current_url
         | Some t \<Rightarrow> if t = [] then current_url else t),
      metadata = []\<rparr>"

text \<open>The body of the \<open>try\<close> (lines 82 to 110): the exception raised, if any, and the state
  where it was raised.\<close>

definition try_body :: "'soup world \<Rightarrow> url \<Rightarrow> run \<Rightarrow> string option \<times> run" where
  "try_body W current_url s =
     (case new_page W (loaded_count' s) of
        Raises e \<Rightarrow> (Some e, s)
      | Returns _ \<Rightarrow>
     (let s1 = s\<lparr>events := events s @ [New_page current_url, Goto current_url],
                 goto_log := goto_log s @ [(current_url, visited_links s)]\<rparr> in
      case goto W (loaded_count' s) current_url of
        Raises e \<Rightarrow> (Some e, s1)
      | Returns _ \<Rightarrow>
     (case content W (loaded_count' s) current_url of
        Raises e \<Rightarrow> (Some e, s1)
      | Returns html \<Rightarrow>
     (case BeautifulSoup W html of
        Raises e \<Rightarrow> (Some e, s1)
      | Returns soup \<Rightarrow>
     (case web_html_cleanup W soup of
        Raises e \<Rightarrow> (Some e, s1)
      | Returns (parsed, soup') \<Rightarrow>
     (let s2 = s1\<lparr>doc_batch := doc_batch s1 @ [make_document current_url parsed]\<rparr> in
      case discover W current_url (find_all_a_href W soup') s2 of
        (Some e, s3) \<Rightarrow> (Some e, s3)
      | (None, s3) \<Rightarrow>
     (case page_close W (loaded_count' s) current_url of
        Raises e \<Rightarrow> (Some e, s3)
      | Returns _ \<Rightarrow>
          (None, s3\<lparr>events := events s3 @ [Page_close current_url],
                    at_least_one_doc := True\<rparr>))))))))"

text \<open>The f-string of line 113.\<close>

definition failure_message :: "url \<Rightarrow> string \<Rightarrow> string" where
  "failure_message current_url e =
     ''Failed to fetch '' @ [CHR 0x27] @ current_url @ [CHR 0x27] @ '': '' @ e"

text \<open>Lines 77 to 119, for the URL just popped: the skip of a visited URL, the \<open>try\<close> with
  its handler, and the yield of a full batch.\<close>

definition iteration :: "'soup world \<Rightarrow> url \<Rightarrow> run \<Rightarrow> run" where
  "iteration W current_url s1 =
     (if current_url \<in> visited_links s1 then s1
      else
        (let s2 = s1\<lparr>visited_links := insert current_url (visited_links s1)\<rparr> in
         case try_body W current_url s2 of
           (Some e, s3) \<Rightarrow>
             (let msg = failure_message current_url e
              in s3\<lparr>last_error := Some msg, events := events s3 @ [Logger_error msg]\<rparr>)
         | (None, s3) \<Rightarrow>
             if int (length (doc_batch s3)) \<ge> batch_size (connectors (heap s3) (self s3))
             then s3\<lparr>yielded := yielded s3 @ [doc_batch s3], doc_batch := []\<rparr>
             else s3))"

subsection \<open>The loop and the run\<close>

text \<open>
  The \<open>while\<close> loop (lines 70 to 119). It stops on an empty frontier, and with a warning
  once the incremented \<open>loaded_count\<close> exceeds \<open>MAX_PAGES_TO_VISIT\<close>. The \<open>pop\<close> of line 76
  follows the test of the frontier, so its IndexError branch is never taken
  (lemma \<open>list_pop_nonempty\<close> below). The counter grows by one in every round and is bounded
  where the loop goes on, which is the termination argument.
\<close>

function crawl :: "'soup world \<Rightarrow> run \<Rightarrow> run" where
  "crawl W s =
     (if frontier s = [] then s
      else
        (let s1 = s\<lparr>loaded_count' := loaded_count' s + 1\<rparr> in
         if loaded_count' s1 > MAX_PAGES_TO_VISIT
         then s1\<lparr>events := events s1 @
                [Logger_warning ''Stopping after visiting 1000 URLs to avoid infinite loops'']\<rparr>
         else (case list_pop s1 of
                 None \<Rightarrow> s1
               | Some (current_url, s2) \<Rightarrow> crawl W (iteration W current_url s2))))"
  by pat_completeness auto
termination
proof (relation "measure (\<lambda>(W, s). nat (MAX_PAGES_TO_VISIT + 1 - loaded_count' s))")
  show "wf (measure (\<lambda>(W :: 'soup world, s). nat (MAX_PAGES_TO_VISIT + 1 - loaded_count' s)))"
    by simp
next
  fix W :: "'soup world" and s s1 s2 :: run and x current_url
  assume a: "frontier s \<noteq> []" "s1 = s\<lparr>loaded_count' := loaded_count' s + 1\<rparr>"
    "\<not> MAX_PAGES_TO_VISIT < loaded_count' s1" "list_pop s1 = Some x" "(current_url, s2) = x"
  have d: "discover W u hs t = (e, t') \<Longrightarrow> loaded_count' t' = loaded_count' t" for u hs t e t'
    by (induction hs arbitrary: t)
       (auto simp: list_append_def split: outcome.splits if_splits)
  have t: "loaded_count' (snd (try_body W u t)) = loaded_count' t" for u t
    by (auto simp: try_body_def Let_def dest!: d split: outcome.split prod.split option.split)
  have i: "loaded_count' (iteration W u t) = loaded_count' t" for u t
    using t [of u "t\<lparr>visited_links := insert u (visited_links t)\<rparr>"]
    by (auto simp: iteration_def Let_def split: prod.split option.split)
  have "loaded_count' s2 = loaded_count' s1"
    using a by (auto simp: list_pop_def split: if_splits)
  then show "((W, iteration W current_url s2), (W, s)) \<in>
          measure (\<lambda>(W, s). nat (MAX_PAGES_TO_VISIT + 1 - loaded_count' s))"
    using a by (simp add: i)
qed

text \<open>
  The locals as lines 56 to 66 bind them. \<open>to_visit\<close> is a copy of the list of the connector,
  a new list object.
\<close>

definition start_state :: "addr \<Rightarrow> heap \<Rightarrow> run" where
  "start_state self_arg h =
     (let (a, h1) = list_copy (to_visit_list (connectors h self_arg)) h
      in \<lparr>heap = h1, self = self_arg, to_visit = a, visited_links = {},
          loaded_count' = loaded_count (connectors h1 self_arg), doc_batch = [],
          at_least_one_doc = False, last_error = None, yielded = [], events = [],
          popped = [], goto_log = []\<rparr>)"

text \<open>Lines 126 to 129.\<close>

definition end_of_run :: "run \<Rightarrow> error option" where
  "end_of_run s =
     (if \<not> at_least_one_doc s then
        (case last_error s of
           Some m \<Rightarrow> if m \<noteq> [] then Some (RuntimeError m)
                     else Some (RuntimeError ''No valid pages found.'')
         | None \<Rightarrow> Some (RuntimeError ''No valid pages found.''))
      else None)"

text \<open>Lines 121 to 124: the batch being filled is yielded if it is not empty, then
  playwright is stopped.\<close>

definition flush_and_stop :: "run \<Rightarrow> run" where
  "flush_and_stop s2 =
     (let s3 = (if doc_batch s2 \<noteq> [] then s2\<lparr>yielded := yielded s2 @ [doc_batch s2]\<rparr>
                else s2)
      in s3\<lparr>events := events s3 @ [Playwright_stop]\<rparr>)"

text \<open>
  \<open>load_from_state\<close>, for a consumer that takes every batch: the error raised, if any, and
  the final state, whose \<open>yielded\<close> are the batches in the order of their yield. With an
  empty list the function raises before any other statement has an effect; in that case the
  locals of lines 62 to 66 are not bound yet in the source, and the state returned holds the
  values they would be bound to. \<open>start_playwright\<close> and \<open>playwright.stop\<close> are outside the
  \<open>try\<close> and are taken to return.
\<close>

definition load_from_state :: "'soup world \<Rightarrow> addr \<Rightarrow> heap \<Rightarrow> error option \<times> run" where
  "load_from_state W self_arg h =
     (let s0 = start_state self_arg h
      in if frontier s0 = [] then (Some (ValueError ''No URLs to visit''), s0)
         else
           (let s1 = s0\<lparr>events := events s0 @ [Start_playwright]\<rparr>;
                s4 = flush_and_stop (crawl W s1)
            in (end_of_run s4, s4)))"

subsection \<open>Observations on a run\<close>

text \<open>The URLs passed to \<open>page.goto\<close>, in the order of the calls, and the messages passed to
  \<open>logger.error\<close>.\<close>

fun goto_calls :: "event list \<Rightarrow> url list" where
  "goto_calls [] = []"
| "goto_calls (Goto u # evs) = u # goto_calls evs"
| "goto_calls (_ # evs) = goto_calls evs"

fun logged_errors :: "event list \<Rightarrow> string list" where
  "logged_errors [] = []"
| "logged_errors (Logger_error m # evs) = m # logged_errors evs"
| "logged_errors (_ # evs) = logged_errors evs"


text \<open>\<open>last_error\<close> is the last message passed to \<open>logger.error\<close>, if there is one, and
  it is not the empty string.\<close>

definition error_recorded :: "run \<Rightarrow> bool" where
  "error_recorded s \<longleftrightarrow>
     (last_error s = None \<longrightarrow> logged_errors (events s) = []) \<and>
     (\<forall>m. last_error s = Some m \<longrightarrow>
        m \<noteq> [] \<and> logged_errors (events s) \<noteq> [] \<and> last (logged_errors (events s)) = m)"

text \<open>The calls of \<open>page.goto\<close> so far have pairwise different URLs, all of them in the
  finite set \<open>visited_links\<close>; where \<open>pages_open\<close> holds, every URL of \<open>visited_links\<close>
  has been passed to \<open>page.goto\<close>; \<open>goto_log\<close> has one entry for each call of \<open>page.goto\<close>, in
  the order of the calls; and the URL of each call was in \<open>visited_links\<close> when the call was
  made.\<close>

definition fetched_once :: "bool \<Rightarrow> run \<Rightarrow> bool" where
  "fetched_once pages_open s \<longleftrightarrow>
     distinct (goto_calls (events s)) \<and> set (goto_calls (events s)) \<subseteq> visited_links s \<and>
     finite (visited_links s) \<and>
     (pages_open \<longrightarrow> set (goto_calls (events s)) = visited_links s) \<and>
     map fst (goto_log s) = goto_calls (events s) \<and>
     (\<forall>(v, V) \<in> set (goto_log s). v \<in> V)"

text \<open>A store \<open>h'\<close> that differs from the store of \<open>s\<close> in the list \<open>to_visit\<close> at most.\<close>

definition frame_of :: "run \<Rightarrow> heap \<Rightarrow> bool" where
  "frame_of s h' \<longleftrightarrow>
     connectors h' = connectors (heap s) \<and> next_free h' = next_free (heap s) \<and>
     (\<forall>b. b \<noteq> to_visit s \<longrightarrow> lists h' b = lists (heap s) b)"

subsection \<open>Example stores and sites\<close>

text \<open>A store that holds one connector \<open>c\<close> at address 0 and its list \<open>seeds\<close> at address 1,
  and a store with nothing allocated.\<close>

definition heap_with :: "connector \<Rightarrow> url list \<Rightarrow> heap" where
  "heap_with c seeds =
     \<lparr>lists = (\<lambda>_. [])(1 := seeds),
      connectors = (\<lambda>_. c\<lparr>to_visit_list := 1\<rparr>),
      next_free = 2\<rparr>"

definition empty_heap :: heap where
  "empty_heap =
     \<lparr>lists = (\<lambda>_. []),
      connectors = (\<lambda>_. \<lparr>batch_size = 0, loaded_count = 0, base_url = [], to_visit_list = 0\<rparr>),
      next_free = 0\<rparr>"

text \<open>
  A site where every call succeeds. The rendered content of a page is its URL, the soup is
  the list of hrefs of its anchors: the page \<open>http://t/a\<close> has two anchors, \<open>a.pdf\<close> and
  \<open>b.html\<close>, and any other page has none.
\<close>

definition site :: "string list world" where
  "site =
     \<lparr>new_page = (\<lambda>_. Returns ()),
      goto = (\<lambda>_ _. Returns ()),
      content = (\<lambda>_ u. Returns u),
      BeautifulSoup = (\<lambda>html. Returns (if html = ''http://t/a'' then [''a.pdf'', ''b.html''] else [])),
      web_html_cleanup = (\<lambda>soup. Returns (\<lparr>title = None, cleaned_text = ''text''\<rparr>, soup)),
      find_all_a_href = (\<lambda>soup. soup),
      urljoin = (\<lambda>u href. Returns (''http://t/'' @ href)),
      page_close = (\<lambda>_ _. Returns ())\<rparr>"

text \<open>A site that never runs out of links: every page has one anchor, and the link of a
  page is a new URL, longer than the URL of the page.\<close>

definition endless_site :: "string list world" where
  "endless_site = site\<lparr>BeautifulSoup := (\<lambda>html. Returns [''x.pdf'']),
                        urljoin := (\<lambda>u href. Returns (u @ ''/'' @ href))\<rparr>"

text \<open>The connector of the examples, with seed \<open>http://t/a\<close>, and its store.\<close>

definition example_connector :: connector where
  "example_connector =
     \<lparr>batch_size = 10, loaded_count = 0, base_url = ''http://t/a'', to_visit_list = 1\<rparr>"

definition example_heap :: heap where
  "example_heap = heap_with example_connector [''http://t/a'']"

text \<open>The site where \<open>page.goto\<close> raises for the seed page and for no other URL.\<close>

definition site_down :: "string list world" where
  "site_down =
     site\<lparr>goto := (\<lambda>_ u. if u = ''http://t/a'' then Raises ''timeout'' else Returns ())\<rparr>"

text \<open>The site where the browser opens no page: every \<open>context.new_page()\<close> raises.\<close>

definition site_no_page :: "string list world" where
  "site_no_page = site\<lparr>new_page := (\<lambda>_. Raises ''browser has been closed'')\<rparr>"

text \<open>
  A site whose seed page has a second anchor with a malformed href, for which \<open>urljoin\<close>
  raises (Python's \<open>urljoin\<close> raises ValueError on an href such as \<open>http://[x.pdf\<close>), and a
  store whose connector has \<open>batch_size\<close> 1.
\<close>

definition site_bad_link :: "string list world" where
  "site_bad_link =
     site\<lparr>BeautifulSoup :=
            (\<lambda>html. Returns (if html = ''http://t/a'' then [''a.pdf'', ''http://[x.pdf''] else [])),
          urljoin :=
            (\<lambda>u href. if href = ''http://[x.pdf'' then Raises ''Invalid IPv6 URL''
                       else Returns (''http://t/'' @ href))\<rparr>"

definition single_batch_heap :: heap where
  "single_batch_heap = heap_with (example_connector\<lparr>batch_size := 1\<rparr>) [''http://t/a'']"

text \<open>
  Following the words of C8, for the comparison with the test of line 104: the path of the
  target of an anchor is its href without the query and the fragment.
\<close>

definition target_path :: "string \<Rightarrow> string" where
  "target_path href = takeWhile (\<lambda>c. c \<noteq> CHR ''?'' \<and> c \<noteq> CHR ''#'') href"

text \<open>
  A site whose seed page has an anchor to a PDF with a query and an anchor to a page whose
  query ends in \<open>.pdf\<close>; and a site whose seed page has an anchor to a PDF in a part of the
  page that \<open>web_html_cleanup\<close> removes from the soup.
\<close>

definition site_query :: "string list world" where
  "site_query =
     site\<lparr>BeautifulSoup :=
            (\<lambda>html. Returns (if html = ''http://t/a'' then [''a.pdf?v=1'', ''p.html?f=x.pdf'']
                            else []))\<rparr>"

definition site_strip :: "string list world" where
  "site_strip =
     site\<lparr>BeautifulSoup := (\<lambda>html. Returns (if html = ''http://t/a'' then [''a.pdf''] else [])),
          web_html_cleanup := (\<lambda>soup. Returns (\<lparr>title = None, cleaned_text = ''text''\<rparr>, []))\<rparr>"

text \<open>
  The renderer failure injected for one URL: \<open>page.goto\<close> raises for \<open>x\<close>, and every other
  call answers as before. A page is a leaf of a site if, whenever it is rendered, parsed and
  cleaned, none of its anchors has an href that ends in \<open>.pdf\<close>: nothing is reached through
  it.
\<close>

definition inject_failure :: "url \<Rightarrow> string \<Rightarrow> 'soup world \<Rightarrow> 'soup world" where
  "inject_failure x e W = W\<lparr>goto := (\<lambda>n v. if v = x then Raises e else goto W n v)\<rparr>"





section \<open>Basic facts\<close>

declare crawl.simps [simp del]

lemma list_pop_nonempty: "frontier s \<noteq> [] \<Longrightarrow> list_pop s \<noteq> None"
  by (simp add: list_pop_def)

lemma crawl_empty: "frontier s = [] \<Longrightarrow> crawl W s = s"
  by (subst crawl.simps) simp

lemma crawl_budget:
  "frontier s \<noteq> [] \<Longrightarrow> MAX_PAGES_TO_VISIT < loaded_count' s + 1 \<Longrightarrow>
   crawl W s = s\<lparr>loaded_count' := loaded_count' s + 1,
                  events := events s @
                [Logger_warning ''Stopping after visiting 1000 URLs to avoid infinite loops'']\<rparr>"
  by (subst crawl.simps) simp

lemma crawl_step:
  "frontier s \<noteq> [] \<Longrightarrow> \<not> MAX_PAGES_TO_VISIT < loaded_count' s + 1 \<Longrightarrow>
   list_pop (s\<lparr>loaded_count' := loaded_count' s + 1\<rparr>) = Some (u, s') \<Longrightarrow>
   crawl W s = crawl W (iteration W u s')"
  by (subst crawl.simps) (simp add: Let_def)

lemma frontier_loaded_count [simp]: "frontier (s\<lparr>loaded_count' := n\<rparr>) = frontier s"
  by (simp add: frontier_def)

lemma crawl_invariant:
  assumes "P s"
    and tick: "\<And>t n. P t \<Longrightarrow> P (t\<lparr>loaded_count' := n\<rparr>)"
    and step: "\<And>t u t'. P t \<Longrightarrow> list_pop t = Some (u, t') \<Longrightarrow> P (iteration W u t')"
    and warn: "\<And>t m. P t \<Longrightarrow> P (t\<lparr>events := events t @ [Logger_warning m]\<rparr>)"
  shows "P (crawl W s)"
  using assms
proof (induction W s rule: crawl.induct)
  case (1 W s)
  note tick = "1.prems"(2) and step = "1.prems"(3) and warn = "1.prems"(4)
  show ?case
  proof (cases "frontier s = []")
    case True
    with "1.prems"(1) show ?thesis by (simp add: crawl_empty)
  next
    case ne: False
    let ?s1 = "s\<lparr>loaded_count' := loaded_count' s + 1\<rparr>"
    have p1: "P ?s1" using "1.prems"(1) by (rule tick)
    show ?thesis
    proof (cases "MAX_PAGES_TO_VISIT < loaded_count' s + 1")
      case True
      have "P (?s1\<lparr>events := events ?s1 @
                [Logger_warning ''Stopping after visiting 1000 URLs to avoid infinite loops'']\<rparr>)"
        using p1 by (rule warn)
      with ne True show ?thesis by (simp add: crawl_budget)
    next
      case False
      from ne obtain u s' where pop: "list_pop ?s1 = Some (u, s')"
        by (auto simp: list_pop_def)
      have "P (iteration W u s')" using p1 pop by (rule step)
      moreover have "\<not> MAX_PAGES_TO_VISIT < loaded_count' ?s1"
        using False by simp
      ultimately have "P (crawl W (iteration W u s'))"
        using ne pop tick step warn by (intro "1.IH" [of ?s1 "(u, s')" u s']) auto
      with ne False pop show ?thesis by (simp add: crawl_step)
    qed
  qed
qed

lemma discover_frame:
  "discover W u hs s = (r, s') \<Longrightarrow>
     s' = s\<lparr>heap := heap s'\<rparr> \<and> connectors (heap s') = connectors (heap s) \<and>
     next_free (heap s') = next_free (heap s) \<and>
     (\<forall>b. b \<noteq> to_visit s \<longrightarrow> lists (heap s') b = lists (heap s) b)"
proof (induction hs arbitrary: s)
  case Nil
  then show ?case by simp
next
  case (Cons h hs)
  show ?case
  proof (cases "h \<noteq> [] \<and> endswith h ''.pdf''")
    case False
    with Cons.prems have "discover W u hs s = (r, s')" by auto
    from Cons.IH [OF this] show ?thesis .
  next
    case True
    show ?thesis
    proof (cases "urljoin W u h")
      case (Raises e)
      with True Cons.prems show ?thesis by simp
    next
      case (Returns p)
      let ?t = "if p \<notin> visited_links s then list_append p s else s"
      from True Returns Cons.prems have "discover W u hs ?t = (r, s')" by simp
      from Cons.IH [OF this] show ?thesis
        by (auto simp: list_append_def split: if_splits)
    qed
  qed
qed





lemma try_body_cases [consumes 1, case_names new_page_raises before_append after_append success]:
  assumes "try_body W u s = (r, s')"
  obtains e where "new_page W (loaded_count' s) = Raises e" "r = Some e" "s' = s"
  | e where "new_page W (loaded_count' s) = Returns ()" "r = Some e"
      "s' = s\<lparr>events := events s @ [New_page u, Goto u],
          goto_log := goto_log s @ [(u, visited_links s)]\<rparr>"
  | e p h' where "new_page W (loaded_count' s) = Returns ()" "r = Some e" "frame_of s h'"
      "s' = s\<lparr>heap := h', events := events s @ [New_page u, Goto u],
          goto_log := goto_log s @ [(u, visited_links s)],
               doc_batch := doc_batch s @ [make_document u p]\<rparr>"
  | p h' where "new_page W (loaded_count' s) = Returns ()" "r = None" "frame_of s h'"
      "s' = s\<lparr>heap := h', events := events s @ [New_page u, Goto u, Page_close u],
          goto_log := goto_log s @ [(u, visited_links s)],
               doc_batch := doc_batch s @ [make_document u p], at_least_one_doc := True\<rparr>"
proof (cases "new_page W (loaded_count' s)")
  case (Raises e)
  with assms have "r = Some e" "s' = s" by (simp_all add: try_body_def)
  with Raises show ?thesis by (rule that(1))
next
  case np: (Returns x)
  let ?s1 = "s\<lparr>events := events s @ [New_page u, Goto u],
          goto_log := goto_log s @ [(u, visited_links s)]\<rparr>"
  have np': "new_page W (loaded_count' s) = Returns ()" using np by simp
  have early: ?thesis if "r = Some e \<and> s' = ?s1" for e
    using np' conjunct1 [OF that] conjunct2 [OF that] by (rule \<open>\<And>e. \<lbrakk>new_page W (loaded_count' s) = Returns (); r = Some e;
      s' = s\<lparr>events := events s @ [New_page u, Goto u],
          goto_log := goto_log s @ [(u, visited_links s)]\<rparr>\<rbrakk> \<Longrightarrow> thesis\<close>)
  show ?thesis
  proof (cases "goto W (loaded_count' s) u")
    case (Raises e)
    with assms np show ?thesis by (intro early [of e]) (simp add: try_body_def)
  next
    case g: (Returns x1)
    show ?thesis
    proof (cases "content W (loaded_count' s) u")
      case (Raises e)
      with assms np g show ?thesis by (intro early [of e]) (simp add: try_body_def)
    next
      case c: (Returns html)
      show ?thesis
      proof (cases "BeautifulSoup W html")
        case (Raises e)
        with assms np g c show ?thesis by (intro early [of e]) (simp add: try_body_def)
      next
        case b: (Returns soup0)
        show ?thesis
        proof (cases "web_html_cleanup W soup0")
          case (Raises e)
          with assms np g c b show ?thesis
            by (intro early [of e]) (simp add: try_body_def)
        next
          case (Returns ps)
          obtain p soup where ps: "ps = (p, soup)" by (cases ps)
          note w = g c b Returns [unfolded ps]
    let ?s2 = "?s1\<lparr>doc_batch := doc_batch ?s1 @ [make_document u p]\<rparr>"
    obtain r3 s3 where d: "discover W u (find_all_a_href W soup) ?s2 = (r3, s3)"
      by (cases "discover W u (find_all_a_href W soup) ?s2") auto
    define h3 where "h3 = heap s3"
    from discover_frame [OF d] have fr: "frame_of s h3"
      and s3: "s3 = ?s2\<lparr>heap := h3\<rparr>" by (auto simp: frame_of_def h3_def)
    show ?thesis
    proof (cases r3)
      case (Some e)
      with assms np w d have "r = Some e" "s' = s3"
        by (auto simp: try_body_def Let_def)
      with s3 have "s' = s\<lparr>heap := h3, events := events s @ [New_page u, Goto u],
          goto_log := goto_log s @ [(u, visited_links s)],
               doc_batch := doc_batch s @ [make_document u p]\<rparr>" by simp
      with np' \<open>r = Some e\<close> fr show ?thesis by (rule that(3))
    next
      case None
      show ?thesis
      proof (cases "page_close W (loaded_count' s) u")
        case (Raises e)
        with assms np w d None have "r = Some e" "s' = s3"
          by (auto simp: try_body_def Let_def)
        with s3 have "s' = s\<lparr>heap := h3, events := events s @ [New_page u, Goto u],
          goto_log := goto_log s @ [(u, visited_links s)],
               doc_batch := doc_batch s @ [make_document u p]\<rparr>" by simp
        with np' \<open>r = Some e\<close> fr show ?thesis by (rule that(3))
      next
        case (Returns y)
        with assms np w d None have "r = None"
          "s' = s3\<lparr>events := events s3 @ [Page_close u], at_least_one_doc := True\<rparr>"
          by (auto simp: try_body_def Let_def)
        with s3 have "s' = s\<lparr>heap := h3,
               events := events s @ [New_page u, Goto u, Page_close u],
          goto_log := goto_log s @ [(u, visited_links s)],
               doc_batch := doc_batch s @ [make_document u p], at_least_one_doc := True\<rparr>"
          by simp
        with np' \<open>r = None\<close> fr show ?thesis by (rule that(4))
      qed
    qed
        qed
      qed
    qed
  qed
qed


lemma list_pop_Some:
  assumes "list_pop s = Some (u, s')"
  shows "frontier s = frontier s' @ [u]"
    and "s' = s\<lparr>heap := heap s', popped := popped s @ [u]\<rparr>"
    and "frame_of s (heap s')"
  using assms
  by (auto simp: list_pop_def frontier_def frame_of_def split: if_splits)

lemma iteration_cases [case_names skip new_page_raises before_append after_append success]:
  obtains "u \<in> visited_links s" "iteration W u s = s"
  | e where "u \<notin> visited_links s" "new_page W (loaded_count' s) = Raises e"
      "iteration W u s = s\<lparr>visited_links := insert u (visited_links s),
          last_error := Some (failure_message u e),
          events := events s @ [Logger_error (failure_message u e)]\<rparr>"
  | e where "u \<notin> visited_links s" "new_page W (loaded_count' s) = Returns ()"
      "iteration W u s = s\<lparr>visited_links := insert u (visited_links s),
          last_error := Some (failure_message u e),
          events := events s @ [New_page u, Goto u, Logger_error (failure_message u e)],
          goto_log := goto_log s @ [(u, insert u (visited_links s))]\<rparr>"
  | h' e p where "u \<notin> visited_links s" "new_page W (loaded_count' s) = Returns ()"
      "frame_of s h'"
      "iteration W u s = s\<lparr>heap := h', visited_links := insert u (visited_links s),
          last_error := Some (failure_message u e),
          events := events s @ [New_page u, Goto u, Logger_error (failure_message u e)],
          goto_log := goto_log s @ [(u, insert u (visited_links s))],
          doc_batch := doc_batch s @ [make_document u p]\<rparr>"
  | h' p where "u \<notin> visited_links s" "new_page W (loaded_count' s) = Returns ()"
      "frame_of s h'"
      "iteration W u s =
         (if batch_size (connectors h' (self s)) \<le> int (length (doc_batch s)) + 1
          then s\<lparr>heap := h', visited_links := insert u (visited_links s),
                 events := events s @ [New_page u, Goto u, Page_close u],
          goto_log := goto_log s @ [(u, insert u (visited_links s))],
                 yielded := yielded s @ [doc_batch s @ [make_document u p]],
                 doc_batch := [], at_least_one_doc := True\<rparr>
          else s\<lparr>heap := h', visited_links := insert u (visited_links s),
                 events := events s @ [New_page u, Goto u, Page_close u],
          goto_log := goto_log s @ [(u, insert u (visited_links s))],
                 doc_batch := doc_batch s @ [make_document u p], at_least_one_doc := True\<rparr>)"
proof (cases "u \<in> visited_links s")
  case True
  then have "iteration W u s = s" by (simp add: iteration_def)
  with True show ?thesis by (rule that(1))
next
  case False
  let ?s2 = "s\<lparr>visited_links := insert u (visited_links s)\<rparr>"
  obtain r s3 where t: "try_body W u ?s2 = (r, s3)" by (cases "try_body W u ?s2") auto
  from t show ?thesis
  proof (cases rule: try_body_cases)
    case (new_page_raises e)
    with t False have eq: "iteration W u s = s\<lparr>visited_links := insert u (visited_links s),
          last_error := Some (failure_message u e),
          events := events s @ [Logger_error (failure_message u e)]\<rparr>"
      by (simp add: iteration_def Let_def)
    have np: "new_page W (loaded_count' s) = Raises e" using new_page_raises(1) by simp
    from False np eq show ?thesis by (rule that(2))
  next
    case (before_append e)
    with t False have eq: "iteration W u s = s\<lparr>visited_links := insert u (visited_links s),
          last_error := Some (failure_message u e),
          events := events s @ [New_page u, Goto u, Logger_error (failure_message u e)],
          goto_log := goto_log s @ [(u, insert u (visited_links s))]\<rparr>"
      by (simp add: iteration_def Let_def)
    have np: "new_page W (loaded_count' s) = Returns ()" using before_append(1) by simp
    from False np eq show ?thesis by (rule that(3))
  next
    case (after_append e p h')
    with t False have eq: "iteration W u s = s\<lparr>heap := h',
          visited_links := insert u (visited_links s),
          last_error := Some (failure_message u e),
          events := events s @ [New_page u, Goto u, Logger_error (failure_message u e)],
          goto_log := goto_log s @ [(u, insert u (visited_links s))],
          doc_batch := doc_batch s @ [make_document u p]\<rparr>"
      by (simp add: iteration_def Let_def)
    have np: "new_page W (loaded_count' s) = Returns ()" using after_append(1) by simp
    have fr: "frame_of s h'" using after_append(3) by (simp add: frame_of_def)
    from False np fr eq show ?thesis by (rule that(4))
  next
    case (success p h')
    with t False have eq: "iteration W u s =
         (if batch_size (connectors h' (self s)) \<le> int (length (doc_batch s)) + 1
          then s\<lparr>heap := h', visited_links := insert u (visited_links s),
                 events := events s @ [New_page u, Goto u, Page_close u],
          goto_log := goto_log s @ [(u, insert u (visited_links s))],
                 yielded := yielded s @ [doc_batch s @ [make_document u p]],
                 doc_batch := [], at_least_one_doc := True\<rparr>
          else s\<lparr>heap := h', visited_links := insert u (visited_links s),
                 events := events s @ [New_page u, Goto u, Page_close u],
          goto_log := goto_log s @ [(u, insert u (visited_links s))],
                 doc_batch := doc_batch s @ [make_document u p], at_least_one_doc := True\<rparr>)"
      by (simp add: iteration_def Let_def)
    have np: "new_page W (loaded_count' s) = Returns ()" using success(1) by simp
    have fr: "frame_of s h'" using success(3) by (simp add: frame_of_def)
    from False np fr eq show ?thesis by (rule that(5))
  qed
qed

lemma goto_calls_append: "goto_calls (xs @ ys) = goto_calls xs @ goto_calls ys"
  by (induction xs rule: goto_calls.induct) simp_all

lemma logged_errors_append: "logged_errors (xs @ ys) = logged_errors xs @ logged_errors ys"
  by (induction xs rule: logged_errors.induct) simp_all


lemma iteration_keeps:
  "popped (iteration W u s) = popped s"
  "loaded_count' (iteration W u s) = loaded_count' s"
  "self (iteration W u s) = self s"
  "to_visit (iteration W u s) = to_visit s"
  by (cases rule: iteration_cases [of u s W]; simp)+

lemma crawl_popped_bound:
  "int (length (popped (crawl W s))) \<le>
     int (length (popped s)) + max 0 (MAX_PAGES_TO_VISIT - loaded_count' s)"
proof (induction W s rule: crawl.induct)
  case (1 W s)
  show ?case
  proof (cases "frontier s = []")
    case True
    then show ?thesis by (simp add: crawl_empty)
  next
    case ne: False
    let ?s1 = "s\<lparr>loaded_count' := loaded_count' s + 1\<rparr>"
    show ?thesis
    proof (cases "MAX_PAGES_TO_VISIT < loaded_count' s + 1")
      case True
      with ne show ?thesis by (simp add: crawl_budget)
    next
      case False
      from ne obtain u s' where pop: "list_pop ?s1 = Some (u, s')"
        by (auto simp: list_pop_def)
      have s': "popped s' = popped s @ [u]" "loaded_count' s' = loaded_count' s + 1"
        using pop by (auto simp: list_pop_def split: if_splits)
      have "int (length (popped (crawl W (iteration W u s')))) \<le>
              int (length (popped (iteration W u s'))) +
              max 0 (MAX_PAGES_TO_VISIT - loaded_count' (iteration W u s'))"
        using ne False pop by (intro "1.IH" [of ?s1 "(u, s')" u s']) auto
      with s' False have "int (length (popped (crawl W (iteration W u s')))) \<le>
              int (length (popped s)) + max 0 (MAX_PAGES_TO_VISIT - loaded_count' s)"
        by (simp add: iteration_keeps)
      with ne False pop show ?thesis by (simp add: crawl_step)
    qed
  qed
qed


lemma start_state_simps:
  "popped (start_state a h) = []" "events (start_state a h) = []"
  "yielded (start_state a h) = []" "doc_batch (start_state a h) = []"
  "visited_links (start_state a h) = {}" "last_error (start_state a h) = None"
  "at_least_one_doc (start_state a h) = False"
  "loaded_count' (start_state a h) = loaded_count (connectors h a)"
  "frontier (start_state a h) = lists h (to_visit_list (connectors h a))"
  "self (start_state a h) = a" "to_visit (start_state a h) = next_free h"
  "goto_log (start_state a h) = []"
  by (simp_all add: start_state_def list_copy_def frontier_def)

lemma list_pop_keeps:
  assumes "list_pop s = Some (u, s')"
  shows "events s' = events s" "last_error s' = last_error s"
    "visited_links s' = visited_links s" "doc_batch s' = doc_batch s"
    "yielded s' = yielded s" "at_least_one_doc s' = at_least_one_doc s"
    "loaded_count' s' = loaded_count' s" "self s' = self s" "to_visit s' = to_visit s"
    "popped s' = popped s @ [u]" "u = last (frontier s)" "frontier s \<noteq> []"
    "frontier s' = butlast (frontier s)" "goto_log s' = goto_log s"
  using assms by (auto simp: list_pop_def frontier_def split: if_splits)

lemma flush_and_stop_simps:
  "events (flush_and_stop s) = events s @ [Playwright_stop]"
  "yielded (flush_and_stop s) = (if doc_batch s \<noteq> [] then yielded s @ [doc_batch s] else yielded s)"
  "last_error (flush_and_stop s) = last_error s"
  "at_least_one_doc (flush_and_stop s) = at_least_one_doc s"
  "visited_links (flush_and_stop s) = visited_links s"
  "popped (flush_and_stop s) = popped s"
  "heap (flush_and_stop s) = heap s"
  "doc_batch (flush_and_stop s) = doc_batch s"
  "goto_log (flush_and_stop s) = goto_log s"
  "loaded_count' (flush_and_stop s) = loaded_count' s"
  "frontier (flush_and_stop s) = frontier s"
  by (simp_all add: flush_and_stop_def Let_def frontier_def)

lemma load_from_state_nonempty:
  assumes "lists h (to_visit_list (connectors h a)) \<noteq> []"
  shows "snd (load_from_state W a h) =
           flush_and_stop (crawl W ((start_state a h)\<lparr>events := [Start_playwright]\<rparr>))"
    and "fst (load_from_state W a h) = end_of_run (snd (load_from_state W a h))"
  using assms
  by (simp_all add: load_from_state_def Let_def start_state_simps)

text \<open>What the \<open>try\<close> block of a successful iteration has done to the frontier.\<close>

lemma list_append_simps [simp]:
  "frontier (list_append x s) = frontier s @ [x]"
  "visited_links (list_append x s) = visited_links s"
  by (simp_all add: list_append_def frontier_def)

lemma endswith_pdf_nonempty: "endswith h ''.pdf'' \<Longrightarrow> h \<noteq> []"
  by (auto simp: endswith_def)

lemma discover_pushes:
  "discover W u hs s = (None, s') \<Longrightarrow>
     \<exists>ps. map (urljoin W u) (filter (\<lambda>h. endswith h ''.pdf'') hs) = map Returns ps \<and>
          frontier s' = frontier s @ filter (\<lambda>p. p \<notin> visited_links s) ps"
proof (induction hs arbitrary: s)
  case Nil
  then show ?case by simp
next
  case (Cons h hs)
  show ?case
  proof (cases "endswith h ''.pdf''")
    case False
    with Cons.prems have "discover W u hs s = (None, s')" by simp
    from Cons.IH [OF this] False show ?thesis by simp
  next
    case True
    then have ne: "h \<noteq> []" by (rule endswith_pdf_nonempty)
    show ?thesis
    proof (cases "urljoin W u h")
      case (Raises e)
      with True ne Cons.prems show ?thesis by simp
    next
      case (Returns p)
      let ?t = "if p \<notin> visited_links s then list_append p s else s"
      from True ne Returns Cons.prems have "discover W u hs ?t = (None, s')" by simp
      from Cons.IH [OF this] obtain ps where
        ps: "map (urljoin W u) (filter (\<lambda>h. endswith h ''.pdf'') hs) = map Returns ps"
        "frontier s' = frontier ?t @ filter (\<lambda>p. p \<notin> visited_links ?t) ps" by blast
      have "map (urljoin W u) (filter (\<lambda>h. endswith h ''.pdf'') (h # hs)) = map Returns (p # ps)"
        using True Returns ps(1) by simp
      moreover have "frontier s' = frontier s @ filter (\<lambda>p. p \<notin> visited_links s) (p # ps)"
        using ps(2) by simp
      ultimately show ?thesis by blast
    qed
  qed
qed

lemma try_body_success:
  assumes "try_body W u s = (None, s')"
  shows "\<exists>html soup0 parsed soup ps.
     content W (loaded_count' s) u = Returns html \<and> BeautifulSoup W html = Returns soup0 \<and>
     web_html_cleanup W soup0 = Returns (parsed, soup) \<and>
     map (urljoin W u) (filter (\<lambda>h. endswith h ''.pdf'') (find_all_a_href W soup)) =
       map Returns ps \<and>
     frontier s' = frontier s @ filter (\<lambda>p. p \<notin> visited_links s) ps"
proof (cases "new_page W (loaded_count' s)")
  case (Raises e)
  with assms show ?thesis by (simp add: try_body_def)
next
  case np: (Returns x0)
  show ?thesis
  proof (cases "goto W (loaded_count' s) u")
    case (Raises e)
    with assms np show ?thesis by (simp add: try_body_def)
  next
    case g: (Returns x1)
    show ?thesis
    proof (cases "content W (loaded_count' s) u")
      case (Raises e)
      with assms np g show ?thesis by (simp add: try_body_def)
    next
      case c: (Returns html)
      show ?thesis
      proof (cases "BeautifulSoup W html")
        case (Raises e)
        with assms np g c show ?thesis by (simp add: try_body_def)
      next
        case b: (Returns soup0)
        show ?thesis
        proof (cases "web_html_cleanup W soup0")
          case (Raises e)
          with assms np g c b show ?thesis by (simp add: try_body_def)
        next
          case (Returns ps)
          obtain parsed soup where w: "web_html_cleanup W soup0 = Returns (parsed, soup)"
            using Returns by (cases ps) auto
          let ?s2 = "s\<lparr>events := events s @ [New_page u, Goto u],
                        goto_log := goto_log s @ [(u, visited_links s)],
                        doc_batch := doc_batch s @ [make_document u parsed]\<rparr>"
          obtain r3 s3 where d: "discover W u (find_all_a_href W soup) ?s2 = (r3, s3)"
            by (cases "discover W u (find_all_a_href W soup) ?s2") auto
          from assms np g c b w d have r3: "r3 = None"
            by (cases r3) (simp_all add: try_body_def)
          from assms np g c b w d r3 have "frontier s' = frontier s3"
            by (cases "page_close W (loaded_count' s) u")
               (auto simp: try_body_def frontier_def)
          moreover from discover_pushes [OF d [unfolded r3]] obtain qs where
            "map (urljoin W u) (filter (\<lambda>h. endswith h ''.pdf'') (find_all_a_href W soup)) =
               map Returns qs"
            "frontier s3 = frontier ?s2 @ filter (\<lambda>p. p \<notin> visited_links ?s2) qs" by blast
          ultimately show ?thesis using c b w by (auto simp: frontier_def)
        qed
      qed
    qed
  qed
qed

section \<open>The page budget\<close>

text \<open>
  C2: whatever the site answers and however the frontier grows, a run of a connector whose
  \<open>loaded_count\<close> attribute is not negative (the constructor sets it to 0) pops at most
  \<open>MAX_PAGES_TO_VISIT\<close> = 1000 URLs. The loop is the total function \<open>crawl\<close>, whose
  termination is proved with its definition, so every run ends.
\<close>

theorem page_budget:
  "0 \<le> loaded_count (connectors h a) \<Longrightarrow>
     int (length (popped (snd (load_from_state W a h)))) \<le> MAX_PAGES_TO_VISIT \<and>
     length (popped (snd (load_from_state W a h))) \<le> 1000"
proof -
  assume lc: "0 \<le> loaded_count (connectors h a)"
  let ?s1 = "(start_state a h)\<lparr>events := events (start_state a h) @ [Start_playwright]\<rparr>"
  have "int (length (popped (crawl W ?s1))) \<le>
          int (length (popped ?s1)) + max 0 (MAX_PAGES_TO_VISIT - loaded_count' ?s1)"
    by (rule crawl_popped_bound)
  with lc have "int (length (popped (crawl W ?s1))) \<le> MAX_PAGES_TO_VISIT"
    by (simp add: start_state_simps MAX_PAGES_TO_VISIT_def)
  then have "int (length (popped (snd (load_from_state W a h)))) \<le> MAX_PAGES_TO_VISIT"
    by (simp add: load_from_state_def flush_and_stop_def Let_def start_state_simps)
  then show ?thesis by (simp add: MAX_PAGES_TO_VISIT_def)
qed

text \<open>The budget on a site whose frontier never empties.\<close>

theorem page_budget_witness:
  "0 \<le> loaded_count (connectors (heap_with \<lparr>batch_size = 10, loaded_count = 0,
          base_url = ''http://t/a'', to_visit_list = 1\<rparr> [''http://t/a'']) 0) \<and>
   length (popped (snd (load_from_state endless_site 0 (heap_with \<lparr>batch_size = 10,
          loaded_count = 0, base_url = ''http://t/a'', to_visit_list = 1\<rparr> [''http://t/a''])))) \<le> 1000"
  using page_budget [of "heap_with \<lparr>batch_size = 10, loaded_count = 0,
          base_url = ''http://t/a'', to_visit_list = 1\<rparr> [''http://t/a'']" 0 endless_site]
  by (simp add: heap_with_def)

section \<open>The empty seed list\<close>

text \<open>
  C7: a run of a connector whose \<open>to_visit_list\<close> is empty raises the ValueError of line 60
  at once: no event has happened, so neither \<open>start_playwright\<close> nor any browser call was
  made, and nothing was yielded.
\<close>

theorem empty_seed_fails_fast:
  "lists h (to_visit_list (connectors h a)) = [] \<Longrightarrow>
     fst (load_from_state W a h) = Some (ValueError ''No URLs to visit'') \<and>
     events (snd (load_from_state W a h)) = [] \<and>
     yielded (snd (load_from_state W a h)) = []"
  by (simp add: load_from_state_def start_state_def list_copy_def frontier_def)

theorem empty_seed_fails_fast_witness:
  "lists (heap_with \<lparr>batch_size = 10, loaded_count = 0, base_url = ''http://t/a'', to_visit_list = 1\<rparr> [])
      (to_visit_list (connectors (heap_with \<lparr>batch_size = 10, loaded_count = 0, base_url = ''http://t/a'', to_visit_list = 1\<rparr> []) 0)) = [] \<and>
   fst (load_from_state site 0 (heap_with \<lparr>batch_size = 10, loaded_count = 0, base_url = ''http://t/a'', to_visit_list = 1\<rparr> []))
     = Some (ValueError ''No URLs to visit'') \<and>
   events (snd (load_from_state site 0 (heap_with \<lparr>batch_size = 10, loaded_count = 0, base_url = ''http://t/a'', to_visit_list = 1\<rparr> []))) = []"
  using empty_seed_fails_fast [of "heap_with \<lparr>batch_size = 10, loaded_count = 0, base_url = ''http://t/a'', to_visit_list = 1\<rparr> []" 0 site]
  by (simp add: heap_with_def)

section \<open>The frontier is a stack\<close>

text \<open>
  C9: \<open>pop\<close> after \<open>append x\<close> returns \<open>x\<close> and leaves the list as it was before the
  \<open>append\<close>; on a non-empty list \<open>pop\<close> returns the last element and removes it; \<open>pop\<close>
  fails on the empty list only, where the loop has already stopped and returns the state as
  it is; and a round of the loop processes the last element of the frontier, which is the
  URL pushed most recently.
\<close>

theorem frontier_is_a_stack:
  "(\<exists>s'. list_pop (list_append x s) = Some (x, s') \<and> frontier s' = frontier s) \<and>
   (frontier s \<noteq> [] \<longrightarrow>
      (\<exists>s'. list_pop s = Some (last (frontier s), s') \<and> frontier s' = butlast (frontier s))) \<and>
   (list_pop s = None \<longleftrightarrow> frontier s = []) \<and>
   (frontier s = [] \<longrightarrow> crawl W s = s) \<and>
   (frontier s \<noteq> [] \<and> loaded_count' s < MAX_PAGES_TO_VISIT \<longrightarrow>
      (\<exists>s'. list_pop (s\<lparr>loaded_count' := loaded_count' s + 1\<rparr>) = Some (last (frontier s), s') \<and>
            crawl W s = crawl W (iteration W (last (frontier s)) s')))"
proof (intro conjI impI)
  show "\<exists>s'. list_pop (list_append x s) = Some (x, s') \<and> frontier s' = frontier s"
    by (simp add: list_pop_def list_append_def frontier_def)
  show "\<exists>s'. list_pop s = Some (last (frontier s), s') \<and> frontier s' = butlast (frontier s)"
    if "frontier s \<noteq> []"
    using that by (simp add: list_pop_def frontier_def)
  show "list_pop s = None \<longleftrightarrow> frontier s = []"
    by (simp add: list_pop_def)
  show "crawl W s = s" if "frontier s = []"
    using that by (rule crawl_empty)
  show "\<exists>s'. list_pop (s\<lparr>loaded_count' := loaded_count' s + 1\<rparr>) = Some (last (frontier s), s') \<and>
            crawl W s = crawl W (iteration W (last (frontier s)) s')"
    if a: "frontier s \<noteq> [] \<and> loaded_count' s < MAX_PAGES_TO_VISIT"
  proof -
    from a obtain s' where p: "list_pop (s\<lparr>loaded_count' := loaded_count' s + 1\<rparr>) =
        Some (last (frontier s), s')"
      by (auto simp: list_pop_def)
    with a have "crawl W s = crawl W (iteration W (last (frontier s)) s')"
      by (intro crawl_step) auto
    with p show ?thesis by blast
  qed
qed

theorem frontier_is_a_stack_witness:
  "frontier (list_append ''http://t/b'' (start_state 0 (heap_with \<lparr>batch_size = 10,
      loaded_count = 0, base_url = ''http://t/a'', to_visit_list = 1\<rparr> [''http://t/a'']))) \<noteq> [] \<and>
   (\<exists>s'. list_pop (list_append ''http://t/b'' (start_state 0 (heap_with \<lparr>batch_size = 10,
      loaded_count = 0, base_url = ''http://t/a'', to_visit_list = 1\<rparr> [''http://t/a'']))) =
        Some (''http://t/b'', s') \<and> frontier s' = [''http://t/a'']) \<and>
   frontier (start_state 0 (heap_with \<lparr>batch_size = 10,
      loaded_count = 0, base_url = ''http://t/a'', to_visit_list = 1\<rparr> [])) = [] \<and>
   crawl site (start_state 0 (heap_with \<lparr>batch_size = 10,
      loaded_count = 0, base_url = ''http://t/a'', to_visit_list = 1\<rparr> [])) =
     start_state 0 (heap_with \<lparr>batch_size = 10,
      loaded_count = 0, base_url = ''http://t/a'', to_visit_list = 1\<rparr> [])"
  using frontier_is_a_stack [of "''http://t/b''" "start_state 0 (heap_with \<lparr>batch_size = 10,
      loaded_count = 0, base_url = ''http://t/a'', to_visit_list = 1\<rparr> [''http://t/a''])" site]
    frontier_is_a_stack [of "''http://t/b''" "start_state 0 (heap_with \<lparr>batch_size = 10,
      loaded_count = 0, base_url = ''http://t/a'', to_visit_list = 1\<rparr> [])" site]
  by (simp add: start_state_def list_copy_def heap_with_def list_append_def frontier_def)

section \<open>Example runs\<close>

text \<open>The run on the site where every call succeeds, the run where \<open>page.goto\<close> fails for
  the seed, and the run of a connector whose \<open>loaded_count\<close> is already 1000.\<close>

lemma run_site:
  "fst (load_from_state site 0 example_heap) = None"
  "at_least_one_doc (snd (load_from_state site 0 example_heap))"
  "events (snd (load_from_state site 0 example_heap)) =
     [Start_playwright, New_page ''http://t/a'', Goto ''http://t/a'', Page_close ''http://t/a'',
      New_page ''http://t/a.pdf'', Goto ''http://t/a.pdf'', Page_close ''http://t/a.pdf'',
      Playwright_stop]"
  "map (map doc_id) (yielded (snd (load_from_state site 0 example_heap))) =
     [[''http://t/a'', ''http://t/a.pdf'']]"
  "visited_links (snd (load_from_state site 0 example_heap)) = {''http://t/a'', ''http://t/a.pdf''}"
  by code_simp+

lemma run_site_down:
  "fst (load_from_state site_down 0 example_heap) =
     Some (RuntimeError (''Failed to fetch '' @ [CHR 0x27] @ ''http://t/a'' @ [CHR 0x27] @ '': timeout''))"
  "\<not> at_least_one_doc (snd (load_from_state site_down 0 example_heap))"
  "events (snd (load_from_state site_down 0 example_heap)) =
     [Start_playwright, New_page ''http://t/a'', Goto ''http://t/a'',
      Logger_error (''Failed to fetch '' @ [CHR 0x27] @ ''http://t/a'' @ [CHR 0x27] @ '': timeout''),
      Playwright_stop]"
  "yielded (snd (load_from_state site_down 0 example_heap)) = []"
  "visited_links (snd (load_from_state site_down 0 example_heap)) = {''http://t/a''}"
  by code_simp+

lemma run_spent:
  "fst (load_from_state site 0 (heap_with (example_connector\<lparr>loaded_count := 1000\<rparr>) [''http://t/a'']))
     = Some (RuntimeError ''No valid pages found.'')"
  "\<not> at_least_one_doc (snd (load_from_state site 0 (heap_with (example_connector\<lparr>loaded_count := 1000\<rparr>) [''http://t/a''])))"
  "events (snd (load_from_state site 0 (heap_with (example_connector\<lparr>loaded_count := 1000\<rparr>) [''http://t/a''])))
     = [Start_playwright,
        Logger_warning ''Stopping after visiting 1000 URLs to avoid infinite loops'',
        Playwright_stop]"
  by code_simp+

section \<open>The end of a run\<close>

lemma failure_message_nonempty: "failure_message u e \<noteq> []"
  by (simp add: failure_message_def)

lemma iteration_error_recorded:
  "error_recorded s \<Longrightarrow> error_recorded (iteration W u s)"
  by (cases rule: iteration_cases [of u s W])
     (simp_all add: error_recorded_def logged_errors_append failure_message_nonempty
        split: option.splits)

lemma crawl_error_recorded:
  assumes "error_recorded s"
  shows "error_recorded (crawl W s)"
proof (rule crawl_invariant [where P = error_recorded, OF assms])
  show "error_recorded (t\<lparr>loaded_count' := n\<rparr>)" if "error_recorded t" for t n
    using that by (simp add: error_recorded_def)
  show "error_recorded (iteration W u t')"
    if "error_recorded t" "list_pop t = Some (u, t')" for t u t'
  proof -
    from that have "error_recorded t'"
      by (simp add: error_recorded_def list_pop_keeps)
    then show ?thesis by (rule iteration_error_recorded)
  qed
  show "error_recorded (t\<lparr>events := events t @ [Logger_warning m]\<rparr>)"
    if "error_recorded t" for t m
    using that by (simp add: error_recorded_def logged_errors_append)
qed

text \<open>
  C6: for a run that goes past the test of line 59 (the seed list is not empty) and ends in
  state \<open>s\<close> with result \<open>r\<close>: if \<open>at_least_one_doc\<close> is false and \<open>logger.error\<close> was called
  for a page, then \<open>last_error\<close> is the last message logged and the run raises a RuntimeError
  with that message; if \<open>at_least_one_doc\<close> is false and no error was logged, \<open>last_error\<close>
  is \<open>None\<close> and the run raises RuntimeError('No valid pages found.'); and if
  \<open>at_least_one_doc\<close> is true the run raises nothing.
\<close>

theorem end_of_run_outcome:
  assumes "lists h (to_visit_list (connectors h a)) \<noteq> []"
    and "load_from_state W a h = (r, s)"
  shows "(\<not> at_least_one_doc s \<and> logged_errors (events s) \<noteq> [] \<longrightarrow>
            last_error s = Some (last (logged_errors (events s))) \<and>
            r = Some (RuntimeError (last (logged_errors (events s))))) \<and>
         (\<not> at_least_one_doc s \<and> logged_errors (events s) = [] \<longrightarrow>
            last_error s = None \<and> r = Some (RuntimeError ''No valid pages found.'')) \<and>
         (at_least_one_doc s \<longrightarrow> r = None)"
proof -
  let ?s1 = "(start_state a h)\<lparr>events := [Start_playwright]\<rparr>"
  have "error_recorded ?s1"
    by (simp add: error_recorded_def start_state_simps)
  then have "error_recorded (crawl W ?s1)" by (rule crawl_error_recorded)
  then have "error_recorded (flush_and_stop (crawl W ?s1))"
    by (simp add: error_recorded_def flush_and_stop_simps logged_errors_append)
  moreover from assms have "s = flush_and_stop (crawl W ?s1)" "r = end_of_run s"
    using load_from_state_nonempty [OF assms(1), of W] by simp_all
  ultimately show ?thesis
    by (auto simp: error_recorded_def end_of_run_def split: option.splits)
qed
theorem end_of_run_outcome_witness:
  "lists example_heap (to_visit_list (connectors example_heap 0)) \<noteq> [] \<and>
   \<not> at_least_one_doc (snd (load_from_state site_down 0 example_heap)) \<and>
   logged_errors (events (snd (load_from_state site_down 0 example_heap))) \<noteq> [] \<and>
   fst (load_from_state site_down 0 example_heap) =
     Some (RuntimeError (last (logged_errors (events (snd (load_from_state site_down 0 example_heap)))))) \<and>
   at_least_one_doc (snd (load_from_state site 0 example_heap)) \<and>
   fst (load_from_state site 0 example_heap) = None \<and>
   \<not> at_least_one_doc (snd (load_from_state site 0
        (heap_with (example_connector\<lparr>loaded_count := 1000\<rparr>) [''http://t/a'']))) \<and>
   logged_errors (events (snd (load_from_state site 0
        (heap_with (example_connector\<lparr>loaded_count := 1000\<rparr>) [''http://t/a''])))) = [] \<and>
   fst (load_from_state site 0
        (heap_with (example_connector\<lparr>loaded_count := 1000\<rparr>) [''http://t/a''])) =
     Some (RuntimeError ''No valid pages found.'')"
  using end_of_run_outcome [of example_heap 0 site_down
      "fst (load_from_state site_down 0 example_heap)"
      "snd (load_from_state site_down 0 example_heap)"]
    end_of_run_outcome [of example_heap 0 site
      "fst (load_from_state site 0 example_heap)"
      "snd (load_from_state site 0 example_heap)"]
    end_of_run_outcome [of "heap_with (example_connector\<lparr>loaded_count := 1000\<rparr>) [''http://t/a'']"
      0 site
      "fst (load_from_state site 0 (heap_with (example_connector\<lparr>loaded_count := 1000\<rparr>) [''http://t/a'']))"
      "snd (load_from_state site 0 (heap_with (example_connector\<lparr>loaded_count := 1000\<rparr>) [''http://t/a'']))"]
    run_site_down(2,3) run_site(2) run_spent(2,3)
  by (simp add: example_heap_def heap_with_def)

section \<open>The connector after a run\<close>

lemma frame_of_trans:
  "frame_of s0 (heap s) \<Longrightarrow> to_visit s = to_visit s0 \<Longrightarrow> frame_of s h' \<Longrightarrow> frame_of s0 h'"
  by (simp add: frame_of_def)

lemma iteration_frame:
  "frame_of s0 (heap s) \<Longrightarrow> to_visit s = to_visit s0 \<Longrightarrow>
     frame_of s0 (heap (iteration W u s)) \<and> to_visit (iteration W u s) = to_visit s0"
proof (cases rule: iteration_cases [of u s W])
  case skip
  then show "frame_of s0 (heap s) \<Longrightarrow> to_visit s = to_visit s0 \<Longrightarrow> ?thesis" by simp
next
  case (new_page_raises e)
  then show "frame_of s0 (heap s) \<Longrightarrow> to_visit s = to_visit s0 \<Longrightarrow> ?thesis" by simp
next
  case (before_append e)
  then show "frame_of s0 (heap s) \<Longrightarrow> to_visit s = to_visit s0 \<Longrightarrow> ?thesis" by simp
next
  case (after_append h' e p)
  then show "frame_of s0 (heap s) \<Longrightarrow> to_visit s = to_visit s0 \<Longrightarrow> ?thesis"
    by (simp add: frame_of_trans [of s0 s h'])
next
  case (success h' p)
  then show "frame_of s0 (heap s) \<Longrightarrow> to_visit s = to_visit s0 \<Longrightarrow> ?thesis"
    by (simp add: frame_of_trans [of s0 s h'])
qed

lemma crawl_frame:
  "frame_of s0 (heap (crawl W s0)) \<and> to_visit (crawl W s0) = to_visit s0"
proof (rule crawl_invariant [where P = "\<lambda>t. frame_of s0 (heap t) \<and> to_visit t = to_visit s0"])
  show "frame_of s0 (heap s0) \<and> to_visit s0 = to_visit s0"
    by (simp add: frame_of_def)
  show "frame_of s0 (heap (t\<lparr>loaded_count' := n\<rparr>)) \<and> to_visit (t\<lparr>loaded_count' := n\<rparr>) = to_visit s0"
    if "frame_of s0 (heap t) \<and> to_visit t = to_visit s0" for t :: run and n
    using that by simp
  show "frame_of s0 (heap (iteration W u t')) \<and> to_visit (iteration W u t') = to_visit s0"
    if "frame_of s0 (heap t) \<and> to_visit t = to_visit s0" "list_pop t = Some (u, t')" for t u t'
  proof -
    from that have "frame_of s0 (heap t')" "to_visit t' = to_visit s0"
      using list_pop_Some(3) [OF that(2)] list_pop_keeps(9) [OF that(2)]
      by (auto intro: frame_of_trans)
    then show ?thesis by (rule iteration_frame)
  qed
  show "frame_of s0 (heap (t\<lparr>events := events t @ [Logger_warning m]\<rparr>)) \<and>
        to_visit (t\<lparr>events := events t @ [Logger_warning m]\<rparr>) = to_visit s0"
    if "frame_of s0 (heap t) \<and> to_visit t = to_visit s0" for t :: run and m
    using that by simp
qed

text \<open>
  C10: a run writes to no object that existed before it. The connector objects of the store
  are as before the run (so \<open>base_url\<close>, \<open>batch_size\<close>, \<open>loaded_count\<close> and the reference
  \<open>to_visit_list\<close> of the connector keep their values), and so is every list allocated before
  the run: the loop pops from and appends to the copy made at line 57. For a connector whose
  list is allocated, as the constructor leaves it, the list has the same elements after the
  run, and a second run starts with the same frontier and the same \<open>loaded_count\<close> as the
  first. This holds whether the run returns or raises.
\<close>

theorem run_keeps_connector:
  "connectors (heap (snd (load_from_state W a h))) = connectors h \<and>
   (\<forall>b < next_free h. lists (heap (snd (load_from_state W a h))) b = lists h b) \<and>
   (to_visit_list (connectors h a) < next_free h \<longrightarrow>
      lists (heap (snd (load_from_state W a h))) (to_visit_list (connectors h a)) =
        lists h (to_visit_list (connectors h a)) \<and>
      frontier (start_state a (heap (snd (load_from_state W a h)))) = frontier (start_state a h) \<and>
      loaded_count' (start_state a (heap (snd (load_from_state W a h)))) =
        loaded_count' (start_state a h))"
proof -
  let ?s0 = "start_state a h"
  let ?s1 = "?s0\<lparr>events := events ?s0 @ [Start_playwright]\<rparr>"
  have h0: "connectors (heap ?s0) = connectors h" "to_visit ?s0 = next_free h"
    "\<forall>b < next_free h. lists (heap ?s0) b = lists h b"
    by (simp_all add: start_state_def list_copy_def)
  have "frame_of ?s1 (heap (crawl W ?s1))" using crawl_frame [of ?s1 W] by simp
  then have fr: "frame_of ?s0 (heap (flush_and_stop (crawl W ?s1)))"
    by (simp add: frame_of_def flush_and_stop_simps)
  have "frame_of ?s0 (heap (snd (load_from_state W a h)))"
  proof (cases "frontier ?s0 = []")
    case True
    then show ?thesis by (simp add: load_from_state_def Let_def frame_of_def)
  next
    case False
    with fr show ?thesis by (simp add: load_from_state_def Let_def)
  qed
  with h0 have c: "connectors (heap (snd (load_from_state W a h))) = connectors h"
    and l: "\<forall>b < next_free h. lists (heap (snd (load_from_state W a h))) b = lists h b"
    by (auto simp: frame_of_def)
  from c l show ?thesis
    by (simp add: start_state_simps)
qed
theorem run_keeps_connector_witness:
  "(case init_connector ''http://t/a'' ''single'' 10 empty_heap of
      Inl e \<Rightarrow> False
    | Inr (a, h) \<Rightarrow>
        to_visit_list (connectors h a) < next_free h \<and>
        connectors (heap (snd (load_from_state site a h))) a =
          \<lparr>batch_size = 10, loaded_count = 0, base_url = ''http://t/a'', to_visit_list = 1\<rparr> \<and>
        lists (heap (snd (load_from_state site a h))) 1 = [''http://t/a''] \<and>
        frontier (start_state a (heap (snd (load_from_state site a h)))) = [''http://t/a''])"
  using run_keeps_connector [of site 0
      "empty_heap\<lparr>lists := (lists empty_heap)(Suc 0 := [''http://t/a'']),
         connectors := (connectors empty_heap)(0 :=
            \<lparr>batch_size = 10, loaded_count = 0, base_url = ''http://t/a'',
             to_visit_list = Suc 0\<rparr>),
         next_free := Suc (Suc 0)\<rparr>"]
  by (simp add: init_connector_def empty_heap_def start_state_simps)

section \<open>No URL is fetched twice\<close>

lemma iteration_visited_mono: "visited_links s \<subseteq> visited_links (iteration W u s)"
  by (cases rule: iteration_cases [of u s W]) auto

lemma crawl_visited_mono: "visited_links s \<subseteq> visited_links (crawl W s)"
proof (rule crawl_invariant [where P = "\<lambda>t. visited_links s \<subseteq> visited_links t"])
  show "visited_links s \<subseteq> visited_links s" by simp
  show "visited_links s \<subseteq> visited_links (t\<lparr>loaded_count' := n\<rparr>)"
    if "visited_links s \<subseteq> visited_links t" for t :: run and n
    using that by simp
  show "visited_links s \<subseteq> visited_links (iteration W u t')"
    if "visited_links s \<subseteq> visited_links t" "list_pop t = Some (u, t')" for t u t'
    using that iteration_visited_mono [of t' W u] by (simp add: list_pop_keeps)
  show "visited_links s \<subseteq> visited_links (t\<lparr>events := events t @ [Logger_warning m]\<rparr>)"
    if "visited_links s \<subseteq> visited_links t" for t :: run and m
    using that by simp
qed

lemma iteration_fetched_once:
  assumes "fetched_once (\<forall>n. new_page W n = Returns ()) s"
  shows "fetched_once (\<forall>n. new_page W n = Returns ()) (iteration W u s)"
proof (cases rule: iteration_cases [of u s W])
  case skip
  with assms show ?thesis by simp
next
  case (new_page_raises e)
  then have "\<not> (\<forall>n. new_page W n = Returns ())" by (metis outcome.distinct(1))
  with assms new_page_raises show ?thesis
    by (auto simp: fetched_once_def goto_calls_append)
next
  case (before_append e)
  with assms show ?thesis by (auto simp: fetched_once_def goto_calls_append)
next
  case (after_append h' e p)
  with assms show ?thesis by (auto simp: fetched_once_def goto_calls_append)
next
  case (success h' p)
  with assms show ?thesis by (auto simp: fetched_once_def goto_calls_append)
qed

lemma crawl_fetched_once:
  assumes "fetched_once (\<forall>n. new_page W n = Returns ()) s"
  shows "fetched_once (\<forall>n. new_page W n = Returns ()) (crawl W s)"
proof (rule crawl_invariant [where P = "fetched_once (\<forall>n. new_page W n = Returns ())", OF assms])
  show "fetched_once (\<forall>n. new_page W n = Returns ()) (t\<lparr>loaded_count' := n\<rparr>)"
    if "fetched_once (\<forall>n. new_page W n = Returns ()) t" for t :: run and n
    using that by (simp add: fetched_once_def)
  show "fetched_once (\<forall>n. new_page W n = Returns ()) (iteration W u t')"
    if "fetched_once (\<forall>n. new_page W n = Returns ()) t" "list_pop t = Some (u, t')" for t u t'
  proof -
    from that have "fetched_once (\<forall>n. new_page W n = Returns ()) t'"
      by (simp add: fetched_once_def list_pop_keeps)
    then show ?thesis by (rule iteration_fetched_once)
  qed
  show "fetched_once (\<forall>n. new_page W n = Returns ())
          (t\<lparr>events := events t @ [Logger_warning m]\<rparr>)"
    if "fetched_once (\<forall>n. new_page W n = Returns ()) t" for t :: run and m
    using that by (simp add: fetched_once_def goto_calls_append)
qed

lemma load_from_state_fetched_once:
  "fetched_once (\<forall>n. new_page W n = Returns ()) (snd (load_from_state W a h))"
proof -
  let ?s1 = "(start_state a h)\<lparr>events := events (start_state a h) @ [Start_playwright]\<rparr>"
  have "fetched_once (\<forall>n. new_page W n = Returns ()) ?s1"
    by (simp add: fetched_once_def start_state_simps)
  then have "fetched_once (\<forall>n. new_page W n = Returns ()) (crawl W ?s1)"
    by (rule crawl_fetched_once)
  then have "fetched_once (\<forall>n. new_page W n = Returns ()) (flush_and_stop (crawl W ?s1))"
    by (simp add: fetched_once_def flush_and_stop_simps goto_calls_append)
  then show ?thesis
    by (simp add: load_from_state_def Let_def fetched_once_def start_state_simps)
qed

lemma iteration_goto_log:
  "goto_log (iteration W u s) = goto_log s \<or>
   goto_log (iteration W u s) = goto_log s @ [(u, insert u (visited_links s))]"
  by (cases rule: iteration_cases [of u s W]) (simp_all split: if_splits)

text \<open>
  C1, as the code has it: an iteration for a URL already in \<open>visited_links\<close> changes nothing;
  an iteration calls \<open>page.goto\<close> at most once, for its own URL and at a moment when this URL
  is already in \<open>visited_links\<close>; \<open>visited_links\<close> only grows, in an iteration and over the
  loop; and at the end of a run every call of \<open>page.goto\<close> was made for a URL that was in
  \<open>visited_links\<close> at the moment of the call, the URLs passed to \<open>page.goto\<close> are pairwise
  different members of \<open>visited_links\<close>, so there are at most as many calls as visited URLs,
  and exactly as many if no \<open>context.new_page()\<close> raises.
\<close>

theorem no_duplicate_fetch:
  "(u \<in> visited_links s \<longrightarrow> iteration W u s = s) \<and>
   (goto_log (iteration W u s) = goto_log s \<or>
    goto_log (iteration W u s) = goto_log s @ [(u, insert u (visited_links s))]) \<and>
   visited_links s \<subseteq> visited_links (iteration W u s) \<and>
   visited_links s \<subseteq> visited_links (crawl W s) \<and>
   map fst (goto_log (snd (load_from_state W a h))) =
     goto_calls (events (snd (load_from_state W a h))) \<and>
   (\<forall>(v, V) \<in> set (goto_log (snd (load_from_state W a h))). v \<in> V) \<and>
   distinct (goto_calls (events (snd (load_from_state W a h)))) \<and>
   set (goto_calls (events (snd (load_from_state W a h)))) \<subseteq>
     visited_links (snd (load_from_state W a h)) \<and>
   length (goto_calls (events (snd (load_from_state W a h)))) \<le>
     card (visited_links (snd (load_from_state W a h))) \<and>
   ((\<forall>n. new_page W n = Returns ()) \<longrightarrow>
      length (goto_calls (events (snd (load_from_state W a h)))) =
        card (visited_links (snd (load_from_state W a h))))"
proof -
  let ?s = "snd (load_from_state W a h)"
  have f: "fetched_once (\<forall>n. new_page W n = Returns ()) ?s"
    by (rule load_from_state_fetched_once)
  then have d: "distinct (goto_calls (events ?s))"
    and sub: "set (goto_calls (events ?s)) \<subseteq> visited_links ?s"
    and fin: "finite (visited_links ?s)"
    and eq: "(\<forall>n. new_page W n = Returns ()) \<longrightarrow> set (goto_calls (events ?s)) = visited_links ?s"
    and lg: "map fst (goto_log ?s) = goto_calls (events ?s)"
    and mk: "\<forall>(v, V) \<in> set (goto_log ?s). v \<in> V"
    by (simp_all add: fetched_once_def)
  from d have len: "length (goto_calls (events ?s)) = card (set (goto_calls (events ?s)))"
    by (simp add: distinct_card)
  from sub fin have le: "card (set (goto_calls (events ?s))) \<le> card (visited_links ?s)"
    by (rule card_mono [rotated])
  have skip: "u \<in> visited_links s \<longrightarrow> iteration W u s = s"
    by (simp add: iteration_def)
  have c1: "length (goto_calls (events ?s)) \<le> card (visited_links ?s)"
    using len le by simp
  have c2: "(\<forall>n. new_page W n = Returns ()) \<longrightarrow>
      length (goto_calls (events ?s)) = card (visited_links ?s)"
    using len eq by simp
  show ?thesis
    using skip iteration_goto_log [of W u s] iteration_visited_mono [of s W u]
      crawl_visited_mono [of s W] lg mk d sub c1 c2
    by (intro conjI)
qed

theorem no_duplicate_fetch_witness:
  "(\<forall>n. new_page site n = Returns ()) \<and>
   length (goto_calls (events (snd (load_from_state site 0 example_heap)))) =
     card (visited_links (snd (load_from_state site 0 example_heap))) \<and>
   card (visited_links (snd (load_from_state site 0 example_heap))) = 2 \<and>
   goto_log (snd (load_from_state site 0 example_heap)) =
     [(''http://t/a'', {''http://t/a''}), (''http://t/a.pdf'', {''http://t/a'', ''http://t/a.pdf''})] \<and>
   ''http://t/a'' \<in> visited_links ((start_state 0 example_heap)\<lparr>visited_links := {''http://t/a''}\<rparr>) \<and>
   iteration site ''http://t/a'' ((start_state 0 example_heap)\<lparr>visited_links := {''http://t/a''}\<rparr>) =
     (start_state 0 example_heap)\<lparr>visited_links := {''http://t/a''}\<rparr>"
proof -
  have g: "goto_log (snd (load_from_state site 0 example_heap)) =
     [(''http://t/a'', {''http://t/a''}), (''http://t/a.pdf'', {''http://t/a'', ''http://t/a.pdf''})]"
    by code_simp
  show ?thesis
    using no_duplicate_fetch [of "''http://t/a''"
        "(start_state 0 example_heap)\<lparr>visited_links := {''http://t/a''}\<rparr>" site 0 example_heap]
      run_site(5) g
    by (simp add: site_def)
qed

text \<open>
  The equality of the two counts, as C1 states it for every run, fails where
  \<open>context.new_page()\<close> raises: the seed is marked visited, and \<open>page.goto\<close> is never called.
\<close>

theorem render_count_counterexample:
  "length (goto_calls (events (snd (load_from_state site_no_page 0 example_heap)))) \<noteq>
     card (visited_links (snd (load_from_state site_no_page 0 example_heap)))"
  by code_simp

section \<open>The page of a failed iteration\<close>

text \<open>
  C4 says that the page opened in an iteration is closed before the next iteration, also
  when a step of the iteration fails. In the code \<open>page.close()\<close> is the last but one
  statement of the \<open>try\<close> block and the handler does not close the page: on the site where
  \<open>page.goto\<close> raises for the seed, the page of the seed is opened and the run ends without
  closing it.
\<close>

theorem page_left_open_after_failure:
  "events (snd (load_from_state site_down 0 example_heap)) =
     [Start_playwright, New_page ''http://t/a'', Goto ''http://t/a'',
      Logger_error (failure_message ''http://t/a'' ''timeout''), Playwright_stop] \<and>
   New_page ''http://t/a'' \<in> set (events (snd (load_from_state site_down 0 example_heap))) \<and>
   Page_close ''http://t/a'' \<notin> set (events (snd (load_from_state site_down 0 example_heap)))"
  by code_simp

section \<open>A batch longer than the batch size\<close>

text \<open>
  C5 says that every batch but the last has exactly \<open>batch_size\<close> Documents. The test of
  line 117 is skipped by the \<open>continue\<close> of the handler, also when the Document of the page
  is already appended: with \<open>batch_size\<close> 1 and a seed page whose second href makes
  \<open>urljoin\<close> raise, the Document of the seed stays in the batch, and the only batch yielded
  has two Documents, where C5 has two batches of one.
\<close>

theorem batch_larger_than_batch_size:
  "batch_size (connectors single_batch_heap 0) = 1 \<and>
   fst (load_from_state site_bad_link 0 single_batch_heap) = None \<and>
   map (map doc_id) (yielded (snd (load_from_state site_bad_link 0 single_batch_heap))) =
     [[''http://t/a'', ''http://t/a.pdf'']] \<and>
   map length (yielded (snd (load_from_state site_bad_link 0 single_batch_heap))) = [2] \<and>
   logged_errors (events (snd (load_from_state site_bad_link 0 single_batch_heap))) =
     [failure_message ''http://t/a'' ''Invalid IPv6 URL'']"
  by code_simp

section \<open>Link discovery\<close>

lemma endswith_iff: "endswith s suffix \<longleftrightarrow> (\<exists>p. s = p @ suffix)"
proof
  assume "endswith s suffix"
  then have "s = take (length s - length suffix) s @ suffix"
    by (metis append_take_drop_id endswith_def)
  then show "\<exists>p. s = p @ suffix" ..
next
  assume "\<exists>p. s = p @ suffix"
  then show "endswith s suffix" by (auto simp: endswith_def)
qed

text \<open>The test is on the whole href string: an href with a query after \<open>.pdf\<close> does not
  pass it, and the test is case sensitive.\<close>

lemma endswith_examples:
  "endswith ''doc/a.pdf'' ''.pdf''" "\<not> endswith ''a.pdf?v=1'' ''.pdf''"
  "\<not> endswith ''a.PDF'' ''.pdf''" "\<not> endswith ''pdf'' ''.pdf''"
  by (simp_all add: endswith_def)

text \<open>
  C8, as the code has it: in an iteration for a URL \<open>u\<close> not yet visited whose \<open>try\<close> block
  raises nothing, the page was rendered, parsed and cleaned, every \<open>urljoin\<close> of \<open>u\<close> with an
  href that ends in \<open>.pdf\<close> returned, and the frontier after the iteration is the frontier
  before it (the state \<open>s\<close> is the one after the pop) followed by the resolved URLs that are
  not in the visited set, which contains \<open>u\<close>, in the order of the anchors. The anchors are
  those of the soup as \<open>web_html_cleanup\<close> has left it, and the test is on the href string.
\<close>

theorem pdf_link_discovery:
  assumes "u \<notin> visited_links s"
    and "try_body W u (s\<lparr>visited_links := insert u (visited_links s)\<rparr>) = (None, s3)"
  shows "\<exists>html soup0 parsed soup ps.
     content W (loaded_count' s) u = Returns html \<and> BeautifulSoup W html = Returns soup0 \<and>
     web_html_cleanup W soup0 = Returns (parsed, soup) \<and>
     map (urljoin W u) (filter (\<lambda>href. endswith href ''.pdf'') (find_all_a_href W soup)) =
       map Returns ps \<and>
     frontier (iteration W u s) =
       frontier s @ filter (\<lambda>pdf_url. pdf_url \<notin> insert u (visited_links s)) ps"
proof -
  have "frontier (iteration W u s) = frontier s3"
    using assms by (simp add: iteration_def Let_def frontier_def)
  with try_body_success [OF assms(2)] show ?thesis
    by (simp add: frontier_def)
qed


theorem pdf_link_discovery_witness:
  "''http://t/a'' \<notin> visited_links (start_state 0 (heap_with example_connector [])) \<and>
   fst (try_body site ''http://t/a''
     ((start_state 0 (heap_with example_connector []))\<lparr>visited_links :=
        insert ''http://t/a'' (visited_links (start_state 0 (heap_with example_connector [])))\<rparr>)) = None \<and>
   find_all_a_href site [''a.pdf'', ''b.html''] = [''a.pdf'', ''b.html''] \<and>
   frontier (iteration site ''http://t/a'' (start_state 0 (heap_with example_connector []))) =
     [''http://t/a.pdf'']"
proof -
  let ?s = "start_state 0 (heap_with example_connector [])"
  let ?s2 = "?s\<lparr>visited_links := insert ''http://t/a'' (visited_links ?s)\<rparr>"
  have n: "''http://t/a'' \<notin> visited_links ?s" by (simp add: start_state_simps)
  have f: "fst (try_body site ''http://t/a'' ?s2) = None" by code_simp
  then have t: "try_body site ''http://t/a'' ?s2 = (None, snd (try_body site ''http://t/a'' ?s2))"
    by (metis prod.collapse)
  have fr: "frontier ?s = []" by (simp add: start_state_simps heap_with_def)
  from pdf_link_discovery [OF n t] obtain html soup0 parsed soup ps where
    w: "content site (loaded_count' ?s) ''http://t/a'' = Returns html"
      "BeautifulSoup site html = Returns soup0"
      "web_html_cleanup site soup0 = Returns (parsed, soup)"
      "map (urljoin site ''http://t/a'') (filter (\<lambda>href. endswith href ''.pdf'') (find_all_a_href site soup)) =
         map Returns ps"
      "frontier (iteration site ''http://t/a'' ?s) =
         frontier ?s @ filter (\<lambda>pdf_url. pdf_url \<notin> insert ''http://t/a'' (visited_links ?s)) ps"
    by blast
  from w(1,2,3) have "soup = [''a.pdf'', ''b.html'']" by (auto simp: site_def)
  with w(4) have "ps = [''http://t/a.pdf'']" by (auto simp: site_def endswith_def)
  with w(5) fr have "frontier (iteration site ''http://t/a'' ?s) = [''http://t/a.pdf'']"
    by (simp add: start_state_simps)
  with n f show ?thesis by (simp add: site_def)
qed

text \<open>
  C8 as it is stated, for the anchors of the rendered HTML whose target path ends in
  \<open>.pdf\<close>, fails in both directions. On \<open>site_query\<close> the path of \<open>a.pdf?v=1\<close> ends in
  \<open>.pdf\<close> and the anchor is not pushed, while \<open>p.html?f=x.pdf\<close>, whose path does not end in
  \<open>.pdf\<close>, is pushed and fetched. On \<open>site_strip\<close> the rendered HTML has an anchor to
  \<open>a.pdf\<close>, the iteration succeeds, and nothing is pushed.
\<close>

theorem target_path_counterexample:
  "BeautifulSoup site_query ''http://t/a'' = Returns [''a.pdf?v=1'', ''p.html?f=x.pdf''] \<and>
   endswith (target_path ''a.pdf?v=1'') ''.pdf'' \<and>
   \<not> endswith (target_path ''p.html?f=x.pdf'') ''.pdf'' \<and>
   fst (try_body site_query ''http://t/a''
     ((start_state 0 (heap_with example_connector []))\<lparr>visited_links := {''http://t/a''}\<rparr>)) = None \<and>
   frontier (iteration site_query ''http://t/a'' (start_state 0 (heap_with example_connector []))) =
     [''http://t/p.html?f=x.pdf''] \<and>
   popped (snd (load_from_state site_query 0 example_heap)) =
     [''http://t/a'', ''http://t/p.html?f=x.pdf''] \<and>
   BeautifulSoup site_strip ''http://t/a'' = Returns [''a.pdf''] \<and>
   endswith (target_path ''a.pdf'') ''.pdf'' \<and>
   fst (try_body site_strip ''http://t/a''
     ((start_state 0 (heap_with example_connector []))\<lparr>visited_links := {''http://t/a''}\<rparr>)) = None \<and>
   frontier (iteration site_strip ''http://t/a'' (start_state 0 (heap_with example_connector []))) = [] \<and>
   popped (snd (load_from_state site_strip 0 example_heap)) = [''http://t/a'']"
  by code_simp

section \<open>A failure of one page\<close>

lemma inject_failure_simps [simp]:
  "new_page (inject_failure x e W) = new_page W"
  "goto (inject_failure x e W) n v = (if v = x then Raises e else goto W n v)"
  "content (inject_failure x e W) = content W"
  "BeautifulSoup (inject_failure x e W) = BeautifulSoup W"
  "web_html_cleanup (inject_failure x e W) = web_html_cleanup W"
  "find_all_a_href (inject_failure x e W) = find_all_a_href W"
  "urljoin (inject_failure x e W) = urljoin W"
  "page_close (inject_failure x e W) = page_close W"
  by (simp_all add: inject_failure_def)





lemma doc_id_make_document [simp]: "doc_id (make_document u p) = u"
  by (simp add: make_document_def)

















end
